theory Spec2Isabelle
  imports Main "HOL-Library.Word"
begin

unbundle bit_operations_syntax

section \<open>Machine integers of xbits.h\<close>

text \<open>
  The header works on the fixed-width integers of C++.  A value of an integral type
  \<open>T\<close> of \<open>w\<close> bits is a \<open>w word\<close>: \<open>+\<close>, \<open>-\<close> and \<open>*\<close> wrap around as the
  unsigned types of C++ do, \<open>unat\<close> reads the value of an unsigned \<open>T\<close> and \<open>sint\<close>
  the value of a signed one.  \<open>to_uint_t<T>\<close> is the unsigned type of the width of \<open>T\<close>,
  so the conversion \<open>unsigned_t(Address)\<close> keeps the bits and is the identity on words.
  The type \<open>int\<close> at the parameters \<open>AlignTo\<close> and at the literal \<open>1\<close> has 32 bits.
  A conversion from \<open>int\<close> to a type of another width is \<open>scast\<close>: it extends the sign
  to a wider type and cuts the high bits for a narrower one.
\<close>

type_synonym int_t = "32 word"
type_synonym uint32_t = "32 word"
type_synonym uint64_t = "64 word"

text \<open>
  A function template of which no instantiation compiles has no value to return: a call
  is rejected when the program is built.  Its result is \<open>Inl IllFormed\<close>.
\<close>

datatype error = IllFormed

text \<open>\<open>sizeof(T)\<close> in bytes, for a type of \<open>LENGTH('a)\<close> bits.\<close>

definition sizeof :: "'a::len itself \<Rightarrow> nat" where
  "sizeof t = LENGTH('a) div 8"

section \<open>SLeft\<close>

text \<open>
  \<^verbatim>\<open>return static_cast<T>(1 << n);\<close>
  The literal \<open>1\<close> is an \<open>int\<close>, so the shift is carried out in 32 bits whatever \<open>T\<close>
  is, and its result is converted to \<open>T\<close> afterwards.  A shift count that is negative
  or not below the 32 bits of \<open>int\<close> has no defined result in C++: \<open>None\<close>.
  (A negative \<open>n\<close> of a signed \<open>T\<close> of at least 8 bits reads as \<open>unat n \<ge> 128\<close>.)
  \<open>1 << 31\<close> is the \<open>int\<close> with only the sign bit set.
\<close>

definition SLeft :: "'a::len word \<Rightarrow> 'a word option" where
  "SLeft n =
     (if unat n < 32 then Some (scast (push_bit (unat n) (1 :: int_t)))
      else None)"

section \<open>Alignment\<close>

text \<open>
  \<^verbatim>\<open>return static_cast<T>( (unsigned_t( Address ) + (static_cast<unsigned_t>(AlignTo) - 1))
                          & static_cast<unsigned_t>(-AlignTo) );\<close>
\<close>

definition Align :: "'a::len word \<Rightarrow> int_t \<Rightarrow> 'a word" where
  "Align Address AlignTo = (Address + (scast AlignTo - 1)) AND scast (- AlignTo)"

text \<open>
  \<^verbatim>\<open>using unsigned_t = to_uint_t<T>::type;
  return static_cast<T>( unsigned_t( Address ) & (-AlignTo) );\<close>
  \<open>to_uint_t<T>\<close> is one of \<open>std::uint8_t\<close>, \<open>std::uint16_t\<close>, \<open>std::uint32_t\<close> and
  \<open>std::uint64_t\<close> (the element of the tuple of line 24 that \<open>std::tuple_element_t\<close>
  selects).  These are fundamental types and have no member \<open>type\<close>, so the alias
  \<open>to_uint_t<T>::type\<close> names nothing, for every integral \<open>T\<close>: the function as written has
  no instantiation, and the \<open>return\<close> statement is never reached.  (\<open>Align\<close> and \<open>isAlign\<close>
  write the alias as \<open>to_uint_t<T>\<close>.)
\<close>

definition AlignLower :: "'a::len word \<Rightarrow> int_t \<Rightarrow> error + 'a word" where
  "AlignLower Address AlignTo = Inl IllFormed"

text \<open>\<^verbatim>\<open>return ( unsigned_t(Addr) & (static_cast<unsigned_t>(AlignTo)-1) ) == 0;\<close>\<close>

definition isAlign :: "'a::len word \<Rightarrow> int_t \<Rightarrow> bool" where
  "isAlign Addr AlignTo \<longleftrightarrow> Addr AND (scast AlignTo - 1) = 0"

section \<open>Flags\<close>

text \<open>
  Modelled from the spec: the header only declares
  \<^verbatim>\<open>template< class T > constexpr void FlagToggle( T& N, const std::uint32_t F ) noexcept;\<close>
  and the body is not among the sources.  The specification says
  "\<open>flag_toggle(N, F)\<close>: \<open>N = N xor F\<close>. In-place."  The reference parameter \<open>N\<close> is
  passed in and its new value returned; the 32-bit mask is converted to the width of
  \<open>T\<close> (zero-extended, or cut when \<open>T\<close> is narrower).
\<close>

definition FlagToggle :: "'a::len word \<Rightarrow> uint32_t \<Rightarrow> 'a word" where
  "FlagToggle N F = N XOR ucast F"

section \<open>Powers of two\<close>

text \<open>
  \<^verbatim>\<open>return static_cast<T>( ( s == 0 ) ? 1 + x : details::NextPowOfTwo<T>( x | (x >> s), s>>1 ) );\<close>
  The shift amount \<open>s\<close> is an \<open>int\<close> that starts at \<open>4*sizeof(T)\<close> and is halved, so
  it is never negative: a \<open>nat\<close>, and \<open>s>>1\<close> is \<open>s div 2\<close>.  \<open>x\<close> has an unsigned
  type (or a signed one and is not negative), for which \<open>>>\<close> shifts zeros in.
\<close>

fun NextPowOfTwo :: "'a::len word \<Rightarrow> nat \<Rightarrow> 'a word" where
  "NextPowOfTwo x s =
     (if s = 0 then 1 + x else NextPowOfTwo (x OR drop_bit s x) (s div 2))"

declare NextPowOfTwo.simps [simp del]

text \<open>
  \<^verbatim>\<open>return ( x == 0 ) ? 0 : details::NextPowOfTwo<T>( x - 1, static_cast<int>(4*sizeof(T)) );\<close>
\<close>

definition RoundToNextPowOfTwo :: "'a::len word \<Rightarrow> 'a word" where
  "RoundToNextPowOfTwo x =
     (if x = 0 then 0 else NextPowOfTwo (x - 1) (4 * sizeof TYPE('a)))"

text \<open>
  \<^verbatim>\<open>return !((x - 1) & x);\<close>
  for an unsigned \<open>T\<close>.  A type narrower than \<open>int\<close> is promoted to \<open>int\<close> before the
  subtraction, which then does not wrap around at \<open>0\<close>.
\<close>

definition isPowTwo :: "'a::len word \<Rightarrow> bool" where
  "isPowTwo x \<longleftrightarrow>
     (if LENGTH('a) < 32 then ((ucast x :: int_t) - 1) AND ucast x = 0
      else (x - 1) AND x = 0)"

text \<open>
  The same body for a signed \<open>T\<close>.  A type narrower than \<open>int\<close> is promoted with its
  sign (\<open>scast\<close>) and the subtraction cannot overflow.  For \<open>int\<close> and wider types the
  subtraction is carried out in \<open>T\<close>, and \<open>x - 1\<close> at the least value of \<open>T\<close> is a signed
  overflow, which has no defined result: \<open>None\<close>.
\<close>

definition isPowTwo_signed :: "'a::len word \<Rightarrow> bool option" where
  "isPowTwo_signed x =
     (if LENGTH('a) < 32 then Some (((scast x :: int_t) - 1) AND scast x = 0)
      else if sint x = - (2 ^ (LENGTH('a) - 1)) then None
      else Some ((x - 1) AND x = 0))"

section \<open>MurmurHash3 finalizer\<close>

text \<open>
  \<^verbatim>\<open>h ^= h >> 16;  h *= 0x85ebca6b;  h ^= h >> 13;  h *= 0xc2b2ae35;  h ^= h >> 16;  return h;\<close>
  on a \<open>std::uint32_t\<close>.
\<close>

definition murmurHash3_by_size_4_Compute :: "uint32_t \<Rightarrow> uint32_t" where
  "murmurHash3_by_size_4_Compute h0 =
     (let h1 = h0 XOR drop_bit 16 h0;
          h2 = h1 * 0x85ebca6b;
          h3 = h2 XOR drop_bit 13 h2;
          h4 = h3 * 0xc2b2ae35;
          h5 = h4 XOR drop_bit 16 h4
      in h5)"

text \<open>
  \<^verbatim>\<open>return static_cast<T>(details::murmurHash3_by_size<sizeof(T)>::Compute( static_cast<to_uint_t<T> >(h) ));\<close>
  for a \<open>T\<close> of four bytes (\<open>std::uint32_t\<close> or \<open>std::int32_t\<close>): both conversions keep
  the 32 bits.
\<close>

definition MurmurHash3 :: "32 word \<Rightarrow> 32 word" where
  "MurmurHash3 h = ucast (murmurHash3_by_size_4_Compute (ucast h))"

section \<open>Counting bits (the portable branch)\<close>

definition popcnt32 :: "uint32_t \<Rightarrow> uint32_t" where
  "popcnt32 x0 =
     (let x1 = x0 - (drop_bit 1 x0 AND 0x55555555);
          x2 = (drop_bit 2 x1 AND 0x33333333) + (x1 AND 0x33333333);
          x3 = (drop_bit 4 x2 + x2) AND 0x0f0f0f0f;
          x4 = x3 + drop_bit 8 x3;
          x5 = x4 + drop_bit 16 x4
      in x5 AND 0x0000003f)"

definition clz32 :: "uint32_t \<Rightarrow> uint32_t" where
  "clz32 x0 =
     (let x1 = x0 OR drop_bit 1 x0;
          x2 = x1 OR drop_bit 2 x1;
          x3 = x2 OR drop_bit 4 x2;
          x4 = x3 OR drop_bit 8 x3;
          x5 = x4 OR drop_bit 16 x4
      in 32 - popcnt32 x5)"

definition ctz32 :: "uint32_t \<Rightarrow> uint32_t" where
  "ctz32 x = popcnt32 ((x AND - x) - 1)"

section \<open>Reference definitions, written from the specification\<close>

text \<open>
  The 32-bit finalizer as the specification writes it, on natural numbers: each
  \<open>h ^= h >> k\<close> is an exclusive or with the quotient by \<open>2 ^ k\<close>, each \<open>h *= c\<close> a
  product reduced modulo \<open>2 ^ 32\<close>.
\<close>

definition mix32_spec :: "nat \<Rightarrow> nat" where
  "mix32_spec h0 =
     (let h1 = h0 XOR (h0 div 2 ^ 16);
          h2 = (h1 * 0x85ebca6b) mod 2 ^ 32;
          h3 = h2 XOR (h2 div 2 ^ 13);
          h4 = (h3 * 0xc2b2ae35) mod 2 ^ 32;
          h5 = h4 XOR (h4 div 2 ^ 16)
      in h5)"

text \<open>
  Rounding down as the specification writes it: "\<open>align_down(address, alignTo)\<close>:
  returns the largest multiple of \<open>alignTo\<close> that is \<open>\<le> address\<close>, via
  \<open>address & -alignTo\<close>", with the \<open>int\<close> operand converted to the width of the address.
\<close>

definition align_down_spec :: "'a::len word \<Rightarrow> int_t \<Rightarrow> 'a word" where
  "align_down_spec address alignTo = address AND scast (- alignTo)"

text \<open>
  Two notions for the bit-smearing loop of \<open>NextPowOfTwo\<close>.  \<open>smeared d x y\<close>: bit \<open>i\<close>
  of \<open>x\<close> is set exactly when \<open>y\<close> has a set bit at one of the positions \<open>i\<close>,
  \<open>i + d\<close>, \<open>i + 2 * d\<close>, \<dots>  \<open>bit_width y\<close> is the number of bits needed to write the
  unsigned value of \<open>y\<close>: the least \<open>n\<close> with \<open>unat y < 2 ^ n\<close>.
\<close>

definition smeared :: "nat \<Rightarrow> 'a::len word \<Rightarrow> 'a word \<Rightarrow> bool" where
  "smeared d x y \<longleftrightarrow> (\<forall>i. bit x i \<longleftrightarrow> (\<exists>q. bit y (i + d * q)))"

definition bit_width :: "'a::len word \<Rightarrow> nat" where
  "bit_width y = (LEAST n. unat y < 2 ^ n)"


section \<open>Facts about machine words\<close>

text \<open>Values of powers of two and of masks.\<close>

lemma unat_pow2: "unat (2 ^ n :: 'a::len word) = 2 ^ n" if "n < LENGTH('a)"
proof -
  have "(2 ^ n :: 'a word) = of_nat (2 ^ n)" by simp
  then have "unat (2 ^ n :: 'a word) = 2 ^ n mod 2 ^ LENGTH('a)"
    by (simp only: unat_of_nat)
  then show ?thesis using that by simp
qed

lemma unat_mask_eq: "unat (mask n :: 'a::len word) = 2 ^ n - 1" if "n \<le> LENGTH('a)"
proof -
  have "uint (mask n :: 'a word) = (mask n :: int)"
    using that by (simp add: uint_mask_eq min_def)
  also have "(mask n :: int) = 2 ^ n - 1" by (rule mask_eq_exp_minus_1)
  finally have "nat (uint (mask n :: 'a word)) = nat (2 ^ n - 1)" by simp
  also have "nat (2 ^ n - 1 :: int) = 2 ^ n - 1"
    by (simp add: nat_diff_distrib nat_power_eq)
  finally show ?thesis by simp
qed

lemma unat_and_mask: "unat (y AND mask n) = unat y mod 2 ^ n" for y :: "'a::len word"
proof -
  have "unat (take_bit n y) = take_bit n (unat y)" by (rule unsigned_take_bit_eq)
  then show ?thesis by (simp only: take_bit_eq_mask [symmetric] take_bit_eq_mod [of n "unat y"])
qed

lemma uint_pow2: "uint (2 ^ n :: 'a::len word) = 2 ^ n" if "n < LENGTH('a)"
proof -
  have "int (unat (2 ^ n :: 'a word)) = int (2 ^ n)" using that by (simp only: unat_pow2)
  then show ?thesis by simp
qed

lemma sint_pow2_int: "sint (2 ^ n :: int_t) = 2 ^ n" if "n \<le> 30"
proof -
  have u: "uint (2 ^ n :: int_t) = 2 ^ n" using that by (intro uint_pow2) simp
  have "(2::int) ^ n < 2 ^ 31" using that by (intro power_strict_increasing) auto
  moreover have "- (2 ^ 31) \<le> (2::int) ^ n" by (rule order_trans [of _ 0]) simp_all
  ultimately have "signed_take_bit 31 ((2::int) ^ n) = 2 ^ n"
    by (rule signed_take_bit_int_eq_self [rotated])
  then show ?thesis unfolding sint_uint u by simp
qed

text \<open>
  The lowest set bit: every word other than \<open>0\<close> has one, and \<open>x & -x\<close> isolates it.
\<close>

lemma odd_and_minus: "odd y \<Longrightarrow> y AND - y = (1 :: 'a::len word)"
proof -
  assume "odd y"
  then obtain z where y: "y = 1 + 2 * z" by (auto elim: oddE simp add: add.commute)
  have "- y = NOT (2 * z)" by (simp add: y minus_eq_not_minus_1)
  then have "y AND - y = (1 + 2 * z) AND NOT (2 * z)" by (simp add: y)
  also have "\<dots> = 1"
    by (rule bit_word_eqI) (auto simp add: bit_simps bit_0 even_bit_succ_iff bit_double_iff)
  finally show ?thesis .
qed

lemma and_minus_lowest:
  fixes x :: "'a::len word"
  assumes "bit x k" and "\<forall>i<k. \<not> bit x i"
  shows "x AND - x = 2 ^ k"
proof -
  have "take_bit k x = 0"
    using assms(2) by (auto intro!: bit_word_eqI simp add: bit_simps)
  then have x: "x = push_bit k (drop_bit k x)"
    using bits_ident [of k x] by simp
  have "odd (drop_bit k x)" using assms(1) by (simp add: bit_iff_odd_drop_bit)
  then have "drop_bit k x AND - drop_bit k x = 1" by (rule odd_and_minus)
  then have "push_bit k (drop_bit k x) AND - push_bit k (drop_bit k x) = push_bit k 1"
    by (simp add: push_bit_minus [symmetric] push_bit_and [symmetric] del: push_bit_and)
  then show ?thesis using x by simp
qed

lemma lowest_set_bit:
  fixes x :: "'a::len word"
  assumes "x \<noteq> 0"
  obtains k where "bit x k" and "\<forall>i<k. \<not> bit x i" and "k < LENGTH('a)"
proof -
  from assms obtain j where j: "bit x j" by (auto simp add: bit_eq_iff)
  define k where "k = (LEAST i. bit x i)"
  have 1: "bit x k" unfolding k_def using j by (rule LeastI)
  have 2: "\<forall>i<k. \<not> bit x i" unfolding k_def by (auto dest: not_less_Least)
  have 3: "k < LENGTH('a)" using 1 by (rule bit_imp_le_length)
  show thesis using 1 2 3 by (rule that)
qed

section \<open>isPowTwo\<close>

lemma pow2_test:
  "(x - 1) AND x = 0 \<longleftrightarrow> x = 0 \<or> (\<exists>k<LENGTH('a). x = 2 ^ k)" for x :: "'a::len word"
proof
  assume h: "(x - 1) AND x = 0"
  show "x = 0 \<or> (\<exists>k<LENGTH('a). x = 2 ^ k)"
  proof (cases "x = 0")
    case True then show ?thesis by simp
  next
    case False
    then obtain k where k: "bit x k" "\<forall>i<k. \<not> bit x i" "k < LENGTH('a)"
      by (rule lowest_set_bit)
    have "x AND NOT (x - 1) = 2 ^ k"
      using and_minus_lowest [OF k(1,2)] by (simp only: minus_eq_not_minus_1)
    moreover have "x = (x AND NOT (x - 1)) OR ((x - 1) AND x)"
      by (rule bit_word_eqI) (auto simp add: bit_simps)
    ultimately have "x = 2 ^ k" using h by simp
    then show ?thesis using k(3) by blast
  qed
next
  assume "x = 0 \<or> (\<exists>k<LENGTH('a). x = 2 ^ k)"
  then show "(x - 1) AND x = 0"
  proof
    assume "x = 0" then show ?thesis by simp
  next
    assume "\<exists>k<LENGTH('a). x = 2 ^ k"
    then obtain k where "x = 2 ^ k" by blast
    moreover have "mask k AND 2 ^ k = (0 :: 'a word)"
      by (rule bit_word_eqI) (auto simp add: bit_simps)
    ultimately show ?thesis by (simp add: mask_eq_exp_minus_1)
  qed
qed

lemma unat_promote: "unat (ucast x :: int_t) = unat x" if "LENGTH('a) < 32"
  for x :: "'a::len word"
proof -
  have "unat x < 2 ^ LENGTH('a)" by simp
  moreover have "(2::nat) ^ LENGTH('a) \<le> 2 ^ 32" using that by (intro power_increasing) auto
  ultimately have "unat x < 2 ^ 32" by linarith
  then show ?thesis by (simp add: unsigned_ucast_eq take_bit_nat_eq_self)
qed

lemma isPowTwo_iff:
  "isPowTwo x \<longleftrightarrow> x = 0 \<or> (\<exists>k<LENGTH('a). x = 2 ^ k)" for x :: "'a::len word"
proof (cases "LENGTH('a) < 32")
  case False
  then show ?thesis by (simp add: isPowTwo_def pow2_test)
next
  case True
  have u: "unat (ucast x :: int_t) = unat x" using True by (rule unat_promote)
  have z: "(ucast x :: int_t) = 0 \<longleftrightarrow> x = 0"
    using u by (metis unat_eq_zero)
  have p: "(\<exists>k<LENGTH(32). (ucast x :: int_t) = 2 ^ k) \<longleftrightarrow> (\<exists>k<LENGTH('a). x = 2 ^ k)"
  proof
    assume "\<exists>k<LENGTH(32). (ucast x :: int_t) = 2 ^ k"
    then obtain k where k: "k < 32" "(ucast x :: int_t) = 2 ^ k" by auto
    then have "unat (ucast x :: int_t) = 2 ^ k" by (simp add: unat_pow2)
    then have e: "unat x = 2 ^ k" using u by simp
    moreover have "unat x < 2 ^ LENGTH('a)" by simp
    ultimately have kl: "k < LENGTH('a)" by simp
    then have "unat x = unat (2 ^ k :: 'a word)" using e by (simp add: unat_pow2)
    then have "x = 2 ^ k" by (simp only: word_unat_eq_iff)
    then show "\<exists>k<LENGTH('a). x = 2 ^ k" using kl by blast
  next
    assume "\<exists>k<LENGTH('a). x = 2 ^ k"
    then obtain k where k: "k < LENGTH('a)" "x = 2 ^ k" by blast
    then have "unat (ucast x :: int_t) = 2 ^ k" using u by (simp add: unat_pow2)
    moreover have "k < 32" using k(1) True by simp
    ultimately have "unat (ucast x :: int_t) = unat (2 ^ k :: int_t)" by (simp add: unat_pow2)
    then have "(ucast x :: int_t) = 2 ^ k" by (simp only: word_unat_eq_iff)
    then show "\<exists>k<LENGTH(32). (ucast x :: int_t) = 2 ^ k" using \<open>k < 32\<close> by auto
  qed
  have "isPowTwo x \<longleftrightarrow> ((ucast x :: int_t) - 1) AND ucast x = 0"
    using True by (simp add: isPowTwo_def)
  also have "\<dots> \<longleftrightarrow> (ucast x :: int_t) = 0 \<or> (\<exists>k<LENGTH(32). (ucast x :: int_t) = 2 ^ k)"
    by (rule pow2_test)
  finally show ?thesis by (simp only: z p)
qed

text \<open>
  C1.  The specification and the comment above the function ("x=0 is false", "Works by
  checking if x & (x-1) == 0 and x>0") say that \<open>isPowTwo\<close> is true exactly on
  \<open>1, 2, 4, 8, \<dots>\<close> and false at \<open>0\<close>.  The body has no test \<open>x > 0\<close>: at \<open>0\<close> it
  computes \<open>(0 - 1) & 0 = 0\<close> and answers true, at every width, for an unsigned and
  for a signed \<open>T\<close>.  On every other value of an unsigned \<open>T\<close> it is as claimed: the
  code answers true exactly on \<open>0\<close> and the powers of two.  On the negative value
  \<open>-128\<close> of a signed 8-bit \<open>T\<close> it answers false, as claimed.
\<close>

theorem isPowTwo_zero:
  "isPowTwo (0 :: 'a::len word) \<and>
   (isPowTwo x \<longleftrightarrow> x = 0 \<or> (\<exists>k<LENGTH('a). x = (2 ^ k :: 'a word))) \<and>
   isPowTwo_signed (0 :: 'a::len word) = Some True \<and>
   isPowTwo_signed (0x80 :: 8 word) = Some False"
proof -
  have "sint (0 :: 'a word) \<noteq> - (2 ^ (LENGTH('a) - 1))" by simp
  then have z: "isPowTwo_signed (0 :: 'a word) = Some True"
    by (simp add: isPowTwo_signed_def)
  have m: "isPowTwo_signed (0x80 :: 8 word) = Some False"
    by (simp add: isPowTwo_signed_def)
  show ?thesis using z m by (simp add: isPowTwo_iff)
qed

section \<open>SLeft\<close>

text \<open>Below 31 the shift stays within the positive \<open>int\<close>s and the result is \<open>2 ^ n\<close>.\<close>

lemma SLeft_small: "SLeft n = Some (2 ^ unat n)" if "unat n < 31" for n :: "'a::len word"
proof -
  have "unat n \<le> 30" using that by simp
  then have "scast (2 ^ unat n :: int_t) = (2 ^ unat n :: 'a word)"
    by (intro bit_word_eqI) (auto simp add: bit_simps min_def)
  then show ?thesis using that by (simp add: SLeft_def)
qed

text \<open>
  C3.  The claim is that \<open>SLeft<T>(n)\<close> is \<open>2 ^ n\<close> for every \<open>n\<close> below the width of
  \<open>T\<close>, for instance \<open>SLeft<uint64_t>(40) = 2 ^ 40\<close>.  The shift is an \<open>int\<close> shift:
  for the 64-bit type, \<open>n = 31\<close> gives the sign-extended \<open>int\<close> minimum and not
  \<open>2 ^ 31\<close>, and \<open>n = 40\<close> has no defined result at all.
\<close>

theorem SLeft_uint64:
  "SLeft (31 :: uint64_t) = Some 0xFFFFFFFF80000000 \<and>
   SLeft (31 :: uint64_t) \<noteq> Some (2 ^ 31) \<and>
   SLeft (40 :: uint64_t) = None"
  by (simp add: SLeft_def)

section \<open>Alignment to a power of two\<close>

text \<open>
  For \<open>AlignTo = 2 ^ n\<close> with \<open>n \<le> 30\<close> (the powers of two of a positive \<open>int\<close>) the
  conversions to the width of \<open>T\<close> give \<open>2 ^ n\<close> and \<open>- 2 ^ n\<close> there, and \<open>Align\<close>,
  \<open>isAlign\<close> and the specification's \<open>align_down\<close> are operations with the mask of the
  \<open>n\<close> low bits.
\<close>

lemma scast_pow2: "scast (2 ^ n :: int_t) = (2 ^ n :: 'a::len word)" if "n \<le> 30"
  using that by (intro bit_word_eqI) (auto simp add: bit_simps min_def)

lemma scast_minus_pow2: "scast (- (2 ^ n) :: int_t) = (- (2 ^ n) :: 'a::len word)" if "n \<le> 30"
  using that unfolding minus_exp_eq_not_mask
  by (intro bit_word_eqI) (auto simp add: bit_simps min_def)

lemma Align_pow2: "Align x (2 ^ n) = (x + mask n) AND NOT (mask n)" if "n \<le> 30"
proof -
  have "Align x (2 ^ n) = (x + (2 ^ n - 1)) AND - (2 ^ n)"
    unfolding Align_def scast_pow2 [OF that] scast_minus_pow2 [OF that] ..
  then show ?thesis by (simp only: minus_exp_eq_not_mask mask_eq_exp_minus_1)
qed

lemma align_down_spec_pow2: "align_down_spec x (2 ^ n) = x AND NOT (mask n)" if "n \<le> 30"
proof -
  have "align_down_spec x (2 ^ n) = x AND - (2 ^ n)"
    unfolding align_down_spec_def scast_minus_pow2 [OF that] ..
  then show ?thesis by (simp only: minus_exp_eq_not_mask)
qed

lemma isAlign_pow2: "isAlign x (2 ^ n) \<longleftrightarrow> x AND mask n = 0" if "n \<le> 30"
  unfolding isAlign_def scast_pow2 [OF that] by (simp only: mask_eq_exp_minus_1)

lemma and_not_mask_and_mask: "(y AND NOT (mask n)) AND mask n = (0 :: 'a::len word)"
  by (rule bit_word_eqI) (auto simp add: bit_simps)

lemma and_not_mask_id: "x AND NOT (mask n) = x" if "x AND mask n = (0 :: 'a::len word)"
proof (rule bit_word_eqI)
  fix i assume "i < LENGTH('a)"
  have "\<not> bit (x AND mask n) i" using that by simp
  then show "bit (x AND NOT (mask n)) i = bit x i"
    by (auto simp add: bit_simps dest: bit_imp_le_length)
qed

lemma align_up_aligned: "(x + mask n) AND NOT (mask n) = x" if "x AND mask n = (0 :: 'a::len word)"
proof -
  have "x + mask n = x OR mask n" using that by (rule disjunctive_add_eq_or)
  moreover have "(x OR mask n) AND NOT (mask n) = x AND NOT (mask n)"
    by (rule bit_word_eqI) (auto simp add: bit_simps)
  ultimately show ?thesis using that by (simp add: and_not_mask_id)
qed

lemma and_not_mask_eq_minus: "y AND NOT (mask n) = y - (y AND mask n)" for y :: "'a::len word"
proof -
  have "(y AND NOT (mask n)) + (y AND mask n) = (y AND NOT (mask n)) OR (y AND mask n)"
    by (rule disjunctive_add_eq_or) (rule bit_word_eqI, auto simp add: bit_simps)
  also have "\<dots> = y" by (rule bit_word_eqI) (auto simp add: bit_simps)
  finally show ?thesis by (simp add: algebra_simps)
qed

lemma unat_and_not_mask: "unat (y AND NOT (mask n)) = unat y - unat y mod 2 ^ n"
  for y :: "'a::len word"
proof -
  have "y AND NOT (mask n) = y - (y AND mask n)" by (rule and_not_mask_eq_minus)
  moreover have "y AND mask n \<le> y" by (rule word_and_le2)
  moreover have "unat (y AND mask n) = unat y mod 2 ^ n" by (rule unat_and_mask)
  ultimately show ?thesis by (simp add: unat_sub)
qed

lemma align_up_ge:
  fixes x :: "'a::len word"
  assumes "unat x + (2 ^ n - 1) < 2 ^ LENGTH('a)"
  shows "x \<le> (x + mask n) AND NOT (mask n)"
proof -
  have n: "n \<le> LENGTH('a)"
  proof (rule ccontr)
    assume "\<not> n \<le> LENGTH('a)"
    then have "(2::nat) ^ Suc LENGTH('a) \<le> 2 ^ n" by (intro power_increasing) auto
    with assms show False by simp
  qed
  have m: "unat (mask n :: 'a word) = 2 ^ n - 1"
    using n by (rule unat_mask_eq)
  have "unat (x + mask n) = unat x + (2 ^ n - 1)"
    using assms m by (simp add: unat_add_lem [THEN iffD1])
  moreover have "unat (x + mask n) mod 2 ^ n \<le> 2 ^ n - 1"
  proof -
    have "unat (x + mask n) mod 2 ^ n < 2 ^ n" by simp
    then show ?thesis by linarith
  qed
  ultimately have "unat x \<le> unat (x + mask n) - unat (x + mask n) mod 2 ^ n" by linarith
  then show ?thesis by (simp add: word_le_nat_alt unat_and_not_mask)
qed

lemma dvd_and_not_mask: "2 ^ n dvd unat (y AND NOT (mask n))" for y :: "'a::len word"
  by (simp add: and_mask_dvd_nat and_not_mask_and_mask)

text \<open>
  The signed reading.  Adding \<open>2 ^ (w - 1)\<close> to a word of \<open>w\<close> bits turns the signed
  order into the unsigned one, and commutes with clearing the \<open>n\<close> low bits when
  \<open>n < w\<close>.
\<close>

lemma uint_add_msb:
  fixes a :: "'a::len word"
  assumes "LENGTH('a) = Suc m"
  shows "uint (a + 2 ^ m) = sint a + 2 ^ m"
proof -
  have S: "uint (2 ^ m :: 'a word) = 2 ^ m"
    by (rule uint_pow2) (simp add: assms)
  have "sint a = signed_take_bit m (uint a)" by (simp add: sint_uint assms)
  also have "\<dots> = take_bit (Suc m) (uint a + 2 ^ m) - 2 ^ m"
    by (rule signed_take_bit_eq_take_bit_shift)
  finally have "sint a = take_bit (Suc m) (uint a + 2 ^ m) - 2 ^ m" .
  moreover have "uint (a + 2 ^ m) = take_bit (Suc m) (uint a + 2 ^ m)"
    using S by (simp add: uint_word_ariths take_bit_eq_mod assms)
  ultimately show ?thesis by simp
qed

lemma sint_le_iff:
  fixes a b :: "'a::len word"
  assumes "LENGTH('a) = Suc m"
  shows "sint a \<le> sint b \<longleftrightarrow> a + 2 ^ m \<le> b + 2 ^ m"
  by (simp add: word_le_def uint_add_msb [OF assms])

lemma and_mask_add_msb:
  fixes x :: "'a::len word"
  assumes "LENGTH('a) = Suc m" and "n \<le> m"
  shows "(x + 2 ^ m) AND mask n = x AND mask n"
proof -
  have "(2::nat) ^ n dvd 2 ^ m" using assms(2) by (rule le_imp_power_dvd)
  then obtain c where c: "(2::nat) ^ m = 2 ^ n * c" by (auto elim: dvdE)
  have "(2::nat) ^ n dvd 2 ^ Suc m" using assms(2) by (intro le_imp_power_dvd) simp
  then have "(unat x + 2 ^ m) mod 2 ^ Suc m mod 2 ^ n = (unat x + 2 ^ m) mod 2 ^ n"
    by (rule mod_mod_cancel)
  also have "\<dots> = unat x mod 2 ^ n" unfolding c by simp
  finally have 1: "(unat x + 2 ^ m) mod 2 ^ Suc m mod 2 ^ n = unat x mod 2 ^ n" .
  have "unat (2 ^ m :: 'a word) = 2 ^ m" by (rule unat_pow2) (simp add: assms(1))
  then have "unat (x + 2 ^ m) = (unat x + 2 ^ m) mod 2 ^ Suc m"
    by (simp add: unat_word_ariths assms(1))
  then have "unat ((x + 2 ^ m) AND mask n) = unat (x AND mask n)"
    using 1 by (simp only: unat_and_mask)
  then show ?thesis by (simp only: word_unat_eq_iff)
qed

lemma and_not_mask_add_msb:
  fixes x :: "'a::len word"
  assumes "LENGTH('a) = Suc m" and "n \<le> m"
  shows "(x + 2 ^ m) AND NOT (mask n) = (x AND NOT (mask n)) + 2 ^ m"
  unfolding and_not_mask_eq_minus and_mask_add_msb [OF assms] by simp

lemma signed_align:
  fixes x :: "'a::len word" and a :: int_t
  assumes "a = 2 ^ n" and "n \<le> 30" and W: "n < LENGTH('a)"
  shows "sint (align_down_spec x a) \<le> sint x"
    and "sint x + (2 ^ n - 1) < 2 ^ (LENGTH('a) - 1) \<Longrightarrow> sint x \<le> sint (Align x a)"
    and "2 ^ n dvd sint (align_down_spec x a)" and "2 ^ n dvd sint (Align x a)"
proof -
  define m where "m = LENGTH('a) - 1"
  have len: "LENGTH('a) = Suc m" by (simp add: m_def)
  have nm: "n \<le> m" using W len by simp
  let ?S = "2 ^ m :: 'a word"
  have A: "Align x a = (x + mask n) AND NOT (mask n)"
    unfolding assms(1) using assms(2) by (rule Align_pow2)
  have L: "align_down_spec x a = x AND NOT (mask n)"
    unfolding assms(1) using assms(2) by (rule align_down_spec_pow2)
  have LS: "align_down_spec x a + ?S = (x + ?S) AND NOT (mask n)"
    unfolding L using len nm by (rule and_not_mask_add_msb [symmetric])
  have AS: "Align x a + ?S = ((x + ?S) + mask n) AND NOT (mask n)"
    unfolding A using and_not_mask_add_msb [OF len nm, of "x + mask n"] by (simp add: ac_simps)
  show "sint (align_down_spec x a) \<le> sint x"
    unfolding sint_le_iff [OF len] LS by (rule word_and_le2)
  show "sint x \<le> sint (Align x a)" if "sint x + (2 ^ n - 1) < 2 ^ (LENGTH('a) - 1)"
  proof -
    have "int (unat (x + ?S)) = sint x + 2 ^ m"
      using uint_add_msb [OF len, of x] by simp
    moreover have "sint x + (2 ^ n - 1) < 2 ^ m" using that by (simp add: m_def)
    ultimately have "int (unat (x + ?S)) + (2 ^ n - 1) < 2 ^ Suc m" by simp
    moreover have "int (unat (x + ?S) + (2 ^ n - 1)) = int (unat (x + ?S)) + (2 ^ n - 1)"
    proof -
      have "int (2 ^ n - 1) = 2 ^ n - 1" by (simp add: of_nat_diff)
      then show ?thesis by (simp only: of_nat_add)
    qed
    ultimately have "int (unat (x + ?S) + (2 ^ n - 1)) < int (2 ^ Suc m)" by simp
    then have "unat (x + ?S) + (2 ^ n - 1) < 2 ^ LENGTH('a)"
      unfolding len by (simp only: of_nat_less_iff)
    then have "x + ?S \<le> ((x + ?S) + mask n) AND NOT (mask n)" by (rule align_up_ge)
    then show ?thesis unfolding sint_le_iff [OF len] AS .
  qed
  have dv: "(2::int) ^ n dvd 2 ^ m" using nm by (rule le_imp_power_dvd)
  have d: "2 ^ n dvd sint z" if "2 ^ n dvd unat (z + ?S)" for z :: "'a word"
  proof -
    have "int (2 ^ n) dvd int (unat (z + ?S))" using that by (simp only: of_nat_dvd_iff)
    then have "2 ^ n dvd sint z + 2 ^ m" using uint_add_msb [OF len, of z] by simp
    then show ?thesis using dv by (simp add: dvd_add_left_iff)
  qed
  show "2 ^ n dvd sint (align_down_spec x a)" by (intro d) (simp only: LS dvd_and_not_mask)
  show "2 ^ n dvd sint (Align x a)" by (intro d) (simp only: AS dvd_and_not_mask)
qed

lemma Align_wide: "Align x (2 ^ n) = 0" if "n \<le> 30" and "LENGTH('a) \<le> n"
  for x :: "'a::len word"
proof -
  have "NOT (mask n) = (0 :: 'a word)"
    by (rule bit_word_eqI) (use that(2) in \<open>auto simp add: bit_simps\<close>)
  then show ?thesis by (simp add: Align_pow2 [OF that(1)])
qed

lemma signed_Align_ge:
  fixes x :: "'a::len word" and a :: int_t
  assumes "a = 2 ^ n" and "n \<le> 30"
    and "sint x + (2 ^ n - 1) < 2 ^ (LENGTH('a) - 1)"
  shows "sint x \<le> sint (Align x a)"
proof (cases "n < LENGTH('a)")
  case True
  with assms show ?thesis by (intro signed_align(2))
next
  case False
  then have "LENGTH('a) \<le> n" by simp
  then have z: "Align x a = 0" unfolding assms(1) using assms(2) by (intro Align_wide)
  have "(2::int) ^ LENGTH('a) \<le> 2 ^ n" using \<open>LENGTH('a) \<le> n\<close> by (intro power_increasing) auto
  moreover have "(2::int) ^ LENGTH('a) = 2 * 2 ^ (LENGTH('a) - 1)"
    by (metis Suc_pred' len_gt_0 power_Suc)
  moreover have "0 < (2::int) ^ (LENGTH('a) - 1)" by simp
  ultimately have "sint x \<le> 0" using assms(3) by linarith
  then show ?thesis by (simp add: z)
qed

lemma signed_Align_dvd:
  fixes x :: "'a::len word" and a :: int_t
  assumes "a = 2 ^ n" and "n \<le> 30"
  shows "2 ^ n dvd sint (Align x a)"
proof (cases "n < LENGTH('a)")
  case True
  with assms show ?thesis by (intro signed_align(4))
next
  case False
  then have "LENGTH('a) \<le> n" by simp
  then have "Align x a = 0" unfolding assms(1) using assms(2) by (intro Align_wide)
  then show ?thesis by simp
qed

lemma sint_dvd_imp_aligned:
  fixes x :: "'a::len word"
  assumes "2 ^ n dvd sint x"
  shows "x AND mask n = 0"
proof -
  define m where "m = LENGTH('a) - 1"
  have len: "LENGTH('a) = Suc m" by (simp add: m_def)
  show ?thesis
  proof (cases "n \<le> m")
    case True
    have "(2::int) ^ n dvd 2 ^ m" using True by (rule le_imp_power_dvd)
    then have "2 ^ n dvd sint x + 2 ^ m" using assms by (rule dvd_add [rotated])
    then have "2 ^ n dvd uint (x + 2 ^ m)" by (simp only: uint_add_msb [OF len])
    then have "int (2 ^ n) dvd int (unat (x + 2 ^ m))" by simp
    then have "2 ^ n dvd unat (x + 2 ^ m)" by (simp only: of_nat_dvd_iff)
    then have "(x + 2 ^ m) AND mask n = 0" by (simp only: and_mask_dvd_nat)
    then show ?thesis by (simp only: and_mask_add_msb [OF len True])
  next
    case False
    have "sint x = 0"
    proof (rule ccontr)
      assume nz: "sint x \<noteq> 0"
      have "\<bar>(2::int) ^ n\<bar> \<le> \<bar>sint x\<bar>" using nz assms by (rule dvd_imp_le_int)
      moreover have "\<bar>sint x\<bar> \<le> 2 ^ m"
        using sint_ge [of x] sint_lt [of x] by (simp add: m_def abs_le_iff)
      moreover have "(2::int) ^ m < 2 ^ n" using False by (intro power_strict_increasing) auto
      ultimately show False by simp
    qed
    then have "x = 0" by (simp only: signed_eq_0_iff)
    then show ?thesis by simp
  qed
qed

text \<open>
  What the specification's \<open>align_down\<close> satisfies, for \<open>alignTo = 2 ^ n\<close> with
  \<open>n \<le> 30\<close>: the result is at most the address, is a multiple of the alignment, is
  left unchanged by \<open>Align\<close>, and is the address itself exactly when \<open>isAlign\<close> holds.
\<close>

lemma align_down_spec_bounds:
  fixes x :: "'a::len word" and a :: int_t
  assumes "a = 2 ^ n" and "n \<le> 30"
  shows "align_down_spec x a \<le> x"
    and "2 ^ n dvd unat (align_down_spec x a)"
    and "Align (align_down_spec x a) a = align_down_spec x a"
    and "isAlign x a \<longleftrightarrow> align_down_spec x a = x"
proof -
  have A: "Align y a = (y + mask n) AND NOT (mask n)" for y :: "'a word"
    unfolding assms(1) using assms(2) by (rule Align_pow2)
  have L: "align_down_spec x a = x AND NOT (mask n)"
    unfolding assms(1) using assms(2) by (rule align_down_spec_pow2)
  have I: "isAlign x a \<longleftrightarrow> x AND mask n = 0"
    unfolding assms(1) using assms(2) by (rule isAlign_pow2)
  show "align_down_spec x a \<le> x" unfolding L by (rule word_and_le2)
  show "2 ^ n dvd unat (align_down_spec x a)" unfolding L by (rule dvd_and_not_mask)
  show "Align (align_down_spec x a) a = align_down_spec x a"
    unfolding A unfolding L by (rule align_up_aligned) (rule and_not_mask_and_mask)
  have 1: "align_down_spec x a = x" if "x AND mask n = 0"
    unfolding L using that by (rule and_not_mask_id)
  have 2: "x AND mask n = 0" if h: "align_down_spec x a = x"
  proof -
    have "align_down_spec x a AND mask n = 0" unfolding L by (rule and_not_mask_and_mask)
    then show ?thesis by (simp only: h)
  qed
  show "isAlign x a \<longleftrightarrow> align_down_spec x a = x" unfolding I using 1 2 by blast
qed

text \<open>
  C2, as stated, fails in two places.  At the top of the range \<open>Align\<close> adds
  \<open>AlignTo - 1\<close> before masking and the sum wraps around: for the unsigned 32-bit
  \<open>x = 0xFFFFFFFF\<close> and \<open>a = 16\<close> the result is \<open>0\<close>, below \<open>x\<close>, and for the signed 32-bit
  \<open>x = 0x7FFFFFFF\<close> it is the least \<open>int\<close>, below \<open>x\<close> as well.  And \<open>AlignLower\<close>, as
  the header writes it, returns no value at these inputs (nor at any other).
\<close>

theorem Align_overflow_counterexample:
  "Align (0xFFFFFFFF :: uint32_t) 16 = 0 \<and>
   \<not> (0xFFFFFFFF :: uint32_t) \<le> Align 0xFFFFFFFF 16 \<and>
   Align (0x7FFFFFFF :: 32 word) 16 = 0x80000000 \<and>
   \<not> sint (0x7FFFFFFF :: 32 word) \<le> sint (Align (0x7FFFFFFF :: 32 word) 16) \<and>
   AlignLower (0xFFFFFFFF :: uint32_t) 16 = Inl IllFormed"
  by (simp add: Align_def AlignLower_def)

text \<open>
  C2, amended to what \<open>Align\<close> does.  For every power of two \<open>a = 2 ^ n\<close> with
  \<open>n \<le> 30\<close> and every \<open>x\<close>, of every width: \<open>x \<le> Align x a\<close> provided \<open>x + (a - 1)\<close>
  does not exceed the largest value of the type; \<open>Align x a\<close> is a multiple of \<open>a\<close>; and
  \<open>Align x a = x\<close> whenever \<open>x\<close> is a multiple of \<open>a\<close>.  Each of the three holds with \<open>x\<close>
  and the result read as values of an unsigned \<open>T\<close> (\<open>unat\<close>), and with both read as
  values of a signed \<open>T\<close> (\<open>sint\<close>).  Nothing is said of \<open>AlignLower\<close>.
\<close>

theorem Align_bounds:
  fixes x :: "'a::len word" and a :: int_t
  assumes "a = 2 ^ n" and "n \<le> 30"
  shows "(unat x + (unat a - 1) < 2 ^ LENGTH('a) \<longrightarrow> x \<le> Align x a) \<and>
         unat a dvd unat (Align x a) \<and>
         (unat a dvd unat x \<longrightarrow> Align x a = x) \<and>
         (sint x + (sint a - 1) < 2 ^ (LENGTH('a) - 1) \<longrightarrow> sint x \<le> sint (Align x a)) \<and>
         sint a dvd sint (Align x a) \<and>
         (sint a dvd sint x \<longrightarrow> Align x a = x)"
proof -
  have a: "unat a = 2 ^ n" unfolding assms(1) using assms(2) by (intro unat_pow2) simp
  have sa: "sint a = 2 ^ n" unfolding assms(1) using assms(2) by (rule sint_pow2_int)
  have A: "Align x a = (x + mask n) AND NOT (mask n)"
    unfolding assms(1) using assms(2) by (rule Align_pow2)
  have 1: "x \<le> Align x a" if "unat x + (unat a - 1) < 2 ^ LENGTH('a)"
    unfolding A using that unfolding a by (rule align_up_ge)
  have 2: "unat a dvd unat (Align x a)" unfolding a A by (rule dvd_and_not_mask)
  have 3: "Align x a = x" if "unat a dvd unat x"
  proof -
    have "x AND mask n = 0" using that unfolding a by (simp only: and_mask_dvd_nat)
    then show ?thesis unfolding A by (rule align_up_aligned)
  qed
  have 4: "sint x \<le> sint (Align x a)" if "sint x + (sint a - 1) < 2 ^ (LENGTH('a) - 1)"
    using assms that [unfolded sa] by (rule signed_Align_ge)
  have 5: "sint a dvd sint (Align x a)" unfolding sa using assms by (rule signed_Align_dvd)
  have 6: "Align x a = x" if "sint a dvd sint x"
  proof -
    have "x AND mask n = 0" using that unfolding sa by (rule sint_dvd_imp_aligned)
    then show ?thesis unfolding A by (rule align_up_aligned)
  qed
  show ?thesis using 1 2 3 4 5 6 by blast
qed

theorem Align_bounds_witness:
  "(16 :: int_t) = 2 ^ 4 \<and> (4::nat) \<le> 30 \<and>
   unat (57 :: uint32_t) + (unat (16 :: int_t) - 1) < 2 ^ LENGTH(32) \<and>
   sint (57 :: 32 word) + (sint (16 :: int_t) - 1) < 2 ^ (LENGTH(32) - 1) \<and>
   Align (57 :: uint32_t) 16 = 64 \<and> (57 :: uint32_t) \<le> Align 57 16 \<and>
   unat (16 :: int_t) dvd unat (Align (57 :: uint32_t) 16) \<and>
   sint (57 :: 32 word) \<le> sint (Align (57 :: 32 word) 16) \<and>
   sint (16 :: int_t) dvd sint (Align (57 :: 32 word) 16) \<and>
   unat (16 :: int_t) dvd unat (64 :: uint32_t) \<and>
   sint (16 :: int_t) dvd sint (64 :: 32 word) \<and> Align (64 :: uint32_t) 16 = 64"
proof -
  have h: "(16 :: int_t) = 2 ^ 4" "(4::nat) \<le> 30" by simp_all
  have v: "Align (57 :: uint32_t) 16 = 64" "Align (64 :: uint32_t) 16 = 64"
    by (simp_all add: Align_def)
  show ?thesis
    using Align_bounds [OF h, of "57 :: uint32_t"] Align_bounds [OF h, of "64 :: uint32_t"]
    unfolding v by simp
qed

text \<open>
  C9.  The claim is that the three tests agree for every power of two \<open>a\<close>.  The two
  that the header defines in full do: for \<open>a = 2 ^ n\<close> with \<open>n \<le> 30\<close> and every \<open>x\<close>,
  \<open>isAlign x a\<close> holds exactly when \<open>Align x a = x\<close>.  The third does not exist:
  \<open>AlignLower x a\<close> gives no value to compare with \<open>x\<close>, whatever \<open>x\<close> and \<open>a\<close> are,
  where the claim (and \<open>align_down_spec\<close>, see \<open>align_down_spec_bounds\<close>) has the value
  \<open>x\<close> exactly when \<open>isAlign x a\<close> holds.
\<close>

theorem isAlign_iff_Align:
  fixes x :: "'a::len word" and a :: int_t
  assumes "a = 2 ^ n" and "n \<le> 30"
  shows "(isAlign x a \<longleftrightarrow> Align x a = x) \<and>
         AlignLower x a = Inl IllFormed \<and> AlignLower x a \<noteq> Inr x"
proof -
  have A: "Align x a = (x + mask n) AND NOT (mask n)"
    unfolding assms(1) using assms(2) by (rule Align_pow2)
  have I: "isAlign x a \<longleftrightarrow> x AND mask n = 0"
    unfolding assms(1) using assms(2) by (rule isAlign_pow2)
  have 1: "Align x a = x" if "x AND mask n = 0"
    unfolding A using that by (rule align_up_aligned)
  have 2: "x AND mask n = 0" if h: "Align x a = x"
  proof -
    have "Align x a AND mask n = 0" unfolding A by (rule and_not_mask_and_mask)
    then show ?thesis by (simp only: h)
  qed
  have "isAlign x a \<longleftrightarrow> Align x a = x" unfolding I using 1 2 by blast
  then show ?thesis by (simp add: AlignLower_def)
qed

theorem isAlign_iff_Align_witness:
  "(16 :: int_t) = 2 ^ 4 \<and> (4::nat) \<le> 30 \<and>
   isAlign (64 :: uint32_t) 16 \<and> Align (64 :: uint32_t) 16 = 64 \<and>
   AlignLower (64 :: uint32_t) 16 = Inl IllFormed \<and>
   align_down_spec (64 :: uint32_t) 16 = 64"
  using isAlign_iff_Align [of 16 4 "64 :: uint32_t"]
  by (simp add: isAlign_def align_down_spec_def)

section \<open>RoundToNextPowOfTwo\<close>

lemma smeared_init: "smeared d y y" if "LENGTH('a) \<le> d" for y :: "'a::len word"
  unfolding smeared_def
proof (intro allI iffI)
  fix i assume "bit y i"
  then have "bit y (i + d * 0)" by simp
  then show "\<exists>q. bit y (i + d * q)" by blast
next
  fix i assume "\<exists>q. bit y (i + d * q)"
  then obtain q where q: "bit y (i + d * q)" by blast
  then have "i + d * q < LENGTH('a)" by (rule bit_imp_le_length)
  with that have "q = 0" by (cases q) auto
  with q show "bit y i" by simp
qed

lemma smeared_step:
  assumes "smeared (2 * s) x y"
  shows "smeared s (x OR drop_bit s x) y"
  unfolding smeared_def
proof (intro allI iffI)
  fix i assume "bit (x OR drop_bit s x) i"
  then have "bit x i \<or> bit x (s + i)" by (simp add: bit_simps)
  then show "\<exists>q. bit y (i + s * q)"
  proof
    assume "bit x i"
    then obtain q where "bit y (i + 2 * s * q)" using assms by (auto simp add: smeared_def)
    then have "bit y (i + s * (2 * q))" by (simp add: mult.assoc mult.left_commute)
    then show ?thesis by blast
  next
    assume "bit x (s + i)"
    then obtain q where "bit y (s + i + 2 * s * q)" using assms by (auto simp add: smeared_def)
    then have "bit y (i + s * (2 * q + 1))" by (simp add: algebra_simps)
    then show ?thesis by blast
  qed
next
  fix i assume "\<exists>q. bit y (i + s * q)"
  then obtain q where q: "bit y (i + s * q)" by blast
  show "bit (x OR drop_bit s x) i"
  proof (cases "even q")
    case True
    then obtain r where "q = 2 * r" by (auto elim: evenE)
    with q have "bit y (i + 2 * s * r)" by (simp add: mult.assoc mult.left_commute)
    then have "bit x i" using assms by (auto simp add: smeared_def)
    then show ?thesis by (simp add: bit_simps)
  next
    case False
    then obtain r where "q = 2 * r + 1" by (auto elim: oddE)
    with q have "bit y (s + i + 2 * s * r)" by (simp add: algebra_simps)
    then have "bit x (s + i)" using assms by (auto simp add: smeared_def)
    then show ?thesis by (simp add: bit_simps)
  qed
qed

lemma NextPowOfTwo_smear:
  "smeared (2 * 2 ^ m) x y \<Longrightarrow> \<exists>z. NextPowOfTwo x (2 ^ m) = 1 + z \<and> smeared 1 z y"
proof (induction m arbitrary: x)
  case 0
  then have "smeared 1 (x OR drop_bit 1 x) y" using smeared_step [of 1 x y] by simp
  moreover have "NextPowOfTwo x (2 ^ 0) = 1 + (x OR drop_bit 1 x)"
    by (simp add: NextPowOfTwo.simps)
  ultimately show ?case by blast
next
  case (Suc m)
  then have "smeared (2 * 2 ^ m) (x OR drop_bit (2 ^ Suc m) x) y"
    using smeared_step [of "2 ^ Suc m" x y] by simp
  then have "\<exists>z. NextPowOfTwo (x OR drop_bit (2 ^ Suc m) x) (2 ^ m) = 1 + z \<and> smeared 1 z y"
    by (rule Suc.IH)
  moreover have "NextPowOfTwo x (2 ^ Suc m) = NextPowOfTwo (x OR drop_bit (2 ^ Suc m) x) (2 ^ m)"
    by (subst NextPowOfTwo.simps) simp
  ultimately show ?case by simp
qed

lemma unat_less_pow2_iff: "unat y < 2 ^ n \<longleftrightarrow> (\<forall>k. bit y k \<longrightarrow> k < n)" for y :: "'a::len word"
proof -
  have "unat y < 2 ^ n \<longleftrightarrow> take_bit n (unat y) = unat y"
    by (simp add: take_bit_nat_eq_self_iff)
  also have "\<dots> \<longleftrightarrow> (\<forall>k. bit (unat y) k \<longrightarrow> k < n)"
    by (auto simp add: bit_eq_iff bit_take_bit_iff)
  also have "\<dots> \<longleftrightarrow> (\<forall>k. bit y k \<longrightarrow> k < n)"
    by (simp add: bit_unsigned_iff)
  finally show ?thesis .
qed

lemma bit_width_le: "bit_width y \<le> LENGTH('a)" for y :: "'a::len word"
  unfolding bit_width_def by (rule Least_le) simp

lemma unat_less_bit_width: "unat y < 2 ^ bit_width y" for y :: "'a::len word"
  unfolding bit_width_def by (rule LeastI [of _ "LENGTH('a)"]) simp

lemma bit_width_least: "unat y < 2 ^ n \<Longrightarrow> bit_width y \<le> n"
  unfolding bit_width_def by (rule Least_le)

lemma smeared_1_mask: "z = mask (bit_width y)" if "smeared 1 z y" for y :: "'a::len word"
proof (rule bit_word_eqI)
  fix i assume i: "i < LENGTH('a)"
  have z: "bit z i \<longleftrightarrow> (\<exists>q. bit y (i + q))" using that by (simp add: smeared_def)
  show "bit z i \<longleftrightarrow> bit (mask (bit_width y) :: 'a word) i"
  proof
    assume "bit z i"
    then obtain q where "bit y (i + q)" using z by blast
    then have "i + q < bit_width y"
      using unat_less_bit_width [of y] by (simp add: unat_less_pow2_iff)
    then show "bit (mask (bit_width y) :: 'a word) i" using i by (simp add: bit_simps)
  next
    assume "bit (mask (bit_width y) :: 'a word) i"
    then have lt: "i < bit_width y" by (simp add: bit_simps)
    have "\<not> unat y < 2 ^ i"
    proof
      assume "unat y < 2 ^ i"
      then have "bit_width y \<le> i" by (rule bit_width_least)
      with lt show False by simp
    qed
    then obtain k where "bit y k" "\<not> k < i" by (auto simp add: unat_less_pow2_iff)
    then have "bit y (i + (k - i))" by simp
    then show "bit z i" using z by blast
  qed
qed

lemma sizeof_shift:
  assumes "LENGTH('a) \<in> {8, 16, 32, 64}"
  shows "\<exists>m. 4 * sizeof TYPE('a::len) = 2 ^ m \<and> LENGTH('a) \<le> 2 * 2 ^ m"
proof -
  consider "LENGTH('a) = 8" | "LENGTH('a) = 16" | "LENGTH('a) = 32" | "LENGTH('a) = 64"
    using assms by auto
  then show ?thesis
  proof cases
    case 1 then have "4 * sizeof TYPE('a) = 2 ^ 2 \<and> LENGTH('a) \<le> 2 * 2 ^ 2" by (simp add: sizeof_def)
    then show ?thesis by blast
  next
    case 2 then have "4 * sizeof TYPE('a) = 2 ^ 3 \<and> LENGTH('a) \<le> 2 * 2 ^ 3" by (simp add: sizeof_def)
    then show ?thesis by blast
  next
    case 3 then have "4 * sizeof TYPE('a) = 2 ^ 4 \<and> LENGTH('a) \<le> 2 * 2 ^ 4" by (simp add: sizeof_def)
    then show ?thesis by blast
  next
    case 4 then have "4 * sizeof TYPE('a) = 2 ^ 5 \<and> LENGTH('a) \<le> 2 * 2 ^ 5" by (simp add: sizeof_def)
    then show ?thesis by blast
  qed
qed

lemma RoundToNextPowOfTwo_pow:
  fixes x :: "'a::len word"
  assumes "LENGTH('a) \<in> {8, 16, 32, 64}" and "x \<noteq> 0"
  shows "RoundToNextPowOfTwo x = 2 ^ bit_width (x - 1)"
proof -
  obtain m where m: "4 * sizeof TYPE('a) = 2 ^ m" "LENGTH('a) \<le> 2 * 2 ^ m"
    using sizeof_shift [OF assms(1)] by blast
  have "smeared (2 * 2 ^ m) (x - 1) (x - 1)" using m(2) by (rule smeared_init)
  then obtain z where z: "NextPowOfTwo (x - 1) (2 ^ m) = 1 + z" "smeared 1 z (x - 1)"
    using NextPowOfTwo_smear by blast
  have "z = mask (bit_width (x - 1))" using z(2) by (rule smeared_1_mask)
  then have "1 + z = 2 ^ bit_width (x - 1)" by (simp add: mask_eq_exp_minus_1)
  then show ?thesis using assms(2) m(1) z(1) by (simp add: RoundToNextPowOfTwo_def)
qed

lemma bit_width_mask: "bit_width (mask n :: 'a::len word) = n" if "n \<le> LENGTH('a)"
  unfolding bit_width_def unat_mask_eq [OF that]
proof (rule Least_equality)
  show "(2::nat) ^ n - 1 < 2 ^ n" by simp
next
  fix k assume "(2::nat) ^ n - 1 < 2 ^ k"
  moreover have "0 < (2::nat) ^ n" by simp
  ultimately have "(2::nat) ^ n \<le> 2 ^ k" by linarith
  then show "n \<le> k" by simp
qed

text \<open>
  C4.  For an unsigned type of 8, 16, 32 or 64 bits: \<open>RoundToNextPowOfTwo 0 = 0\<close>, and
  for every \<open>x \<noteq> 0\<close> for which some power of two \<open>2 ^ k \<ge> x\<close> is representable
  (\<open>k\<close> below the width), the result is a power of two, is at least \<open>x\<close>, and is at
  most every power of two that is at least \<open>x\<close>.  An exact power of two is returned
  unchanged, and \<open>RoundToNextPowOfTwo 5 = 8\<close>.  (A positive value of a signed type
  whose result is representable has the same bits and takes the same steps.)
\<close>

theorem RoundToNextPowOfTwo_smallest:
  fixes x :: "'a::len word"
  assumes "LENGTH('a) \<in> {8, 16, 32, 64}" and "x \<noteq> 0"
    and "\<exists>k<LENGTH('a). unat x \<le> 2 ^ k"
  shows "RoundToNextPowOfTwo (0 :: 'a word) = 0 \<and>
         (\<exists>k. unat (RoundToNextPowOfTwo x) = 2 ^ k) \<and>
         unat x \<le> unat (RoundToNextPowOfTwo x) \<and>
         (\<forall>j. unat x \<le> 2 ^ j \<longrightarrow> unat (RoundToNextPowOfTwo x) \<le> 2 ^ j) \<and>
         (unat x = 2 ^ i \<longrightarrow> RoundToNextPowOfTwo x = x) \<and>
         RoundToNextPowOfTwo (5 :: uint32_t) = 8"
proof -
  define N where "N = bit_width (x - 1)"
  have R: "RoundToNextPowOfTwo x = 2 ^ N"
    unfolding N_def using assms(1,2) by (rule RoundToNextPowOfTwo_pow)
  have pos: "0 < unat x" using assms(2) by (simp add: unat_gt_0)
  have pred: "unat (x - 1) = unat x - 1" using assms(2) by (rule unat_minus_one)
  obtain k where k: "k < LENGTH('a)" "unat x \<le> 2 ^ k" using assms(3) by blast
  have "unat (x - 1) < 2 ^ k" using k(2) pos pred by simp
  then have "N \<le> k" unfolding N_def by (rule bit_width_least)
  then have "N < LENGTH('a)" using k(1) by simp
  then have u: "unat (RoundToNextPowOfTwo x) = 2 ^ N" unfolding R by (rule unat_pow2)
  have "unat (x - 1) < 2 ^ N" unfolding N_def by (rule unat_less_bit_width)
  then have ge: "unat x \<le> 2 ^ N" using pred by simp
  have least: "(2::nat) ^ N \<le> 2 ^ j" if "unat x \<le> 2 ^ j" for j
  proof -
    have "unat (x - 1) < 2 ^ j" using that pos pred by simp
    then have "N \<le> j" unfolding N_def by (rule bit_width_least)
    then show ?thesis by simp
  qed
  have self: "RoundToNextPowOfTwo x = x" if "unat x = 2 ^ i"
  proof -
    have "(2::nat) ^ N \<le> 2 ^ i" using that by (intro least) simp
    then have "unat (RoundToNextPowOfTwo x) = unat x" using ge that u by simp
    then show ?thesis by (simp only: word_unat_eq_iff)
  qed
  have five: "RoundToNextPowOfTwo (5 :: uint32_t) = 8"
    by (simp add: RoundToNextPowOfTwo_def sizeof_def NextPowOfTwo.simps)
  have zero: "RoundToNextPowOfTwo (0 :: 'a word) = 0" by (simp add: RoundToNextPowOfTwo_def)
  show ?thesis using zero u ge least self five by auto
qed

theorem RoundToNextPowOfTwo_smallest_witness:
  "LENGTH(32) \<in> {8 :: nat, 16, 32, 64} \<and> (5 :: uint32_t) \<noteq> 0 \<and>
   (3 :: nat) < LENGTH(32) \<and> unat (5 :: uint32_t) \<le> 2 ^ 3 \<and>
   unat (RoundToNextPowOfTwo (5 :: uint32_t)) = 2 ^ 3 \<and>
   unat (5 :: uint32_t) \<le> unat (RoundToNextPowOfTwo (5 :: uint32_t))"
proof -
  have 1: "LENGTH(32) \<in> {8 :: nat, 16, 32, 64}" by simp
  have 2: "(5 :: uint32_t) \<noteq> 0" by simp
  have 3: "\<exists>k<LENGTH(32). unat (5 :: uint32_t) \<le> 2 ^ k" by (rule exI [of _ 3]) simp
  show ?thesis using RoundToNextPowOfTwo_smallest [OF 1 2 3] by simp
qed

text \<open>
  C5.  For an unsigned type of 8, 16, 32 or 64 bits, \<open>RoundToNextPowOfTwo\<close> is
  idempotent at every \<open>x\<close>, with no restriction on representability (an \<open>x\<close> above
  the largest representable power of two is sent to \<open>0\<close>, which is sent to \<open>0\<close>), and
  \<open>RoundToNextPowOfTwo 0 = 0\<close>.
\<close>

theorem RoundToNextPowOfTwo_idem:
  fixes x :: "'a::len word"
  assumes "LENGTH('a) \<in> {8, 16, 32, 64}"
  shows "RoundToNextPowOfTwo (RoundToNextPowOfTwo x) = RoundToNextPowOfTwo x \<and>
         RoundToNextPowOfTwo (0 :: 'a word) = 0"
proof -
  have zero: "RoundToNextPowOfTwo (0 :: 'a word) = 0" by (simp add: RoundToNextPowOfTwo_def)
  have idem: "RoundToNextPowOfTwo (RoundToNextPowOfTwo x) = RoundToNextPowOfTwo x"
  proof (cases "RoundToNextPowOfTwo x = 0")
    case True
    then show ?thesis by (simp add: zero)
  next
    case False
    then have "x \<noteq> 0" using zero by auto
    define N where "N = bit_width (x - 1)"
    have R: "RoundToNextPowOfTwo x = 2 ^ N"
      unfolding N_def using assms \<open>x \<noteq> 0\<close> by (rule RoundToNextPowOfTwo_pow)
    have nz: "(2 ^ N :: 'a word) \<noteq> 0" using False R by simp
    then have N: "N < LENGTH('a)" by (simp add: exp_eq_zero_iff)
    have "RoundToNextPowOfTwo (2 ^ N :: 'a word) = 2 ^ bit_width (2 ^ N - 1 :: 'a word)"
      using assms nz by (rule RoundToNextPowOfTwo_pow)
    also have "(2 ^ N - 1 :: 'a word) = mask N" by (simp add: mask_eq_exp_minus_1)
    also have "bit_width (mask N :: 'a word) = N" using N by (simp add: bit_width_mask)
    finally show ?thesis by (simp only: R)
  qed
  show ?thesis using idem zero by simp
qed

theorem RoundToNextPowOfTwo_idem_witness:
  "LENGTH(32) \<in> {8 :: nat, 16, 32, 64} \<and>
   RoundToNextPowOfTwo (RoundToNextPowOfTwo (0x80000001 :: uint32_t)) =
     RoundToNextPowOfTwo (0x80000001 :: uint32_t) \<and>
   RoundToNextPowOfTwo (0x80000001 :: uint32_t) = 0"
proof -
  have 1: "LENGTH(32) \<in> {8 :: nat, 16, 32, 64}" by simp
  have "RoundToNextPowOfTwo (0x80000001 :: uint32_t) = 0"
    by (simp add: RoundToNextPowOfTwo_def sizeof_def NextPowOfTwo.simps)
  then show ?thesis using RoundToNextPowOfTwo_idem [OF 1, of "0x80000001"] by simp
qed


section \<open>FlagToggle\<close>

text \<open>
  C8.  Toggling twice with the same mask gives back the original value of \<open>N\<close>, for
  every width of \<open>N\<close> and every 32-bit mask \<open>F\<close>.
\<close>

theorem FlagToggle_twice: "FlagToggle (FlagToggle N F) F = N"
  by (simp add: FlagToggle_def xor.assoc)

section \<open>The 32-bit MurmurHash3 finalizer\<close>

lemma unat_xorshift: "unat (h XOR drop_bit n h) = unat h XOR (unat h div 2 ^ n)"
proof -
  have "unat (drop_bit n h) = unat h div 2 ^ n"
    unfolding unat_drop_bit_eq by (rule drop_bit_eq_div)
  then show ?thesis by (simp only: unsigned_xor_eq)
qed

lemma unat_mult32: "unat (h * c :: 32 word) = (unat h * unat c) mod 2 ^ 32"
  by (simp add: unat_word_ariths)

lemma unat_MurmurHash3: "unat (MurmurHash3 h) = mix32_spec (unat h)"
  by (simp add: MurmurHash3_def murmurHash3_by_size_4_Compute_def mix32_spec_def Let_def
      unat_xorshift unat_mult32)

lemma sint_MurmurHash3:
  "sint (MurmurHash3 (word_of_int i)) =
     signed_take_bit 31 (int (mix32_spec (nat (i mod 2 ^ 32))))"
proof -
  have "unat (word_of_int i :: 32 word) = nat (i mod 2 ^ 32)"
    by (simp add: unat_eq_nat_uint uint_word_of_int take_bit_eq_mod)
  then have "uint (MurmurHash3 (word_of_int i)) = int (mix32_spec (nat (i mod 2 ^ 32)))"
    using unat_MurmurHash3 [of "word_of_int i"] by (metis uint_nat)
  then show ?thesis by (simp add: sint_uint)
qed

text \<open>
  C6.  \<open>MurmurHash3\<close> on a 32-bit value is the five steps of the specification in
  arithmetic modulo \<open>2 ^ 32\<close>: read as an unsigned number, the result is \<open>mix32_spec\<close>
  of the input read as an unsigned number.  A signed input \<open>i\<close> enters as
  \<open>i mod 2 ^ 32\<close> and the result is read back in two's complement.  The result is a
  function of the input alone (there is no other argument and no state), so equal
  inputs give equal outputs; the value at \<open>0x12345678\<close> is \<open>0xE37CD1BC\<close>.
\<close>

theorem MurmurHash3_steps:
  "unat (MurmurHash3 h) = mix32_spec (unat h) \<and>
   sint (MurmurHash3 (word_of_int i)) =
     signed_take_bit 31 (int (mix32_spec (nat (i mod 2 ^ 32)))) \<and>
   MurmurHash3 0x12345678 = 0xE37CD1BC"
proof -
  have "MurmurHash3 0x12345678 = 0xE37CD1BC"
    by (simp add: MurmurHash3_def murmurHash3_by_size_4_Compute_def Let_def)
  then show ?thesis by (simp only: unat_MurmurHash3 sint_MurmurHash3 simp_thms)
qed

lemma xorshift16_involution:
  "(h XOR drop_bit 16 h) XOR drop_bit 16 (h XOR drop_bit 16 h) = (h :: 32 word)"
  by (rule bit_word_eqI) (auto simp add: bit_simps)

lemma xorshift13_inverse:
  "y XOR drop_bit 13 y XOR drop_bit 26 y = (h :: 32 word)" if "y = h XOR drop_bit 13 h"
  unfolding that by (rule bit_word_eqI) (auto simp add: bit_simps)

lemma mult_85ebca6b_inverse: "(h * 0x85ebca6b) * 0xa5cb9243 = (h :: 32 word)"
proof -
  have "0x85ebca6b * 0xa5cb9243 = (1 :: 32 word)" by simp
  then show ?thesis by (simp only: mult.assoc mult_1_right)
qed

lemma mult_c2b2ae35_inverse: "(h * 0xc2b2ae35) * 0x7ed1b41d = (h :: 32 word)"
proof -
  have "0xc2b2ae35 * 0x7ed1b41d = (1 :: 32 word)" by simp
  then show ?thesis by (simp only: mult.assoc mult_1_right)
qed

lemma xorshift16_inj:
  "h XOR drop_bit 16 h = h' XOR drop_bit 16 h' \<Longrightarrow> h = (h' :: 32 word)"
  by (metis xorshift16_involution)

lemma xorshift13_inj:
  "h XOR drop_bit 13 h = h' XOR drop_bit 13 h' \<Longrightarrow> h = (h' :: 32 word)"
  by (metis xorshift13_inverse)

lemma mult_85ebca6b_inj: "h * 0x85ebca6b = h' * 0x85ebca6b \<Longrightarrow> h = (h' :: 32 word)"
  by (metis mult_85ebca6b_inverse)

lemma mult_c2b2ae35_inj: "h * 0xc2b2ae35 = h' * 0xc2b2ae35 \<Longrightarrow> h = (h' :: 32 word)"
  by (metis mult_c2b2ae35_inverse)

lemma Compute_inj:
  assumes "murmurHash3_by_size_4_Compute a = murmurHash3_by_size_4_Compute b"
  shows "a = b"
proof -
  define a1 where "a1 = a XOR drop_bit 16 a"
  define b1 where "b1 = b XOR drop_bit 16 b"
  define a3 where "a3 = a1 * 0x85ebca6b XOR drop_bit 13 (a1 * 0x85ebca6b)"
  define b3 where "b3 = b1 * 0x85ebca6b XOR drop_bit 13 (b1 * 0x85ebca6b)"
  from assms have "a3 * 0xc2b2ae35 XOR drop_bit 16 (a3 * 0xc2b2ae35)
      = b3 * 0xc2b2ae35 XOR drop_bit 16 (b3 * 0xc2b2ae35)"
    by (simp add: murmurHash3_by_size_4_Compute_def Let_def a3_def b3_def a1_def b1_def)
  then have "a3 * 0xc2b2ae35 = b3 * 0xc2b2ae35" by (rule xorshift16_inj)
  then have "a3 = b3" by (rule mult_c2b2ae35_inj)
  then have "a1 * 0x85ebca6b = b1 * 0x85ebca6b"
    unfolding a3_def b3_def by (rule xorshift13_inj)
  then have "a1 = b1" by (rule mult_85ebca6b_inj)
  then show "a = b" unfolding a1_def b1_def by (rule xorshift16_inj)
qed

lemma MurmurHash3_eq_iff: "MurmurHash3 a = MurmurHash3 b \<longleftrightarrow> a = b"
  using Compute_inj [of a b] by (auto simp add: MurmurHash3_def)

text \<open>
  C10.  The 32-bit finalizer is a bijection on the 32-bit words: two inputs with the
  same hash are the same input, and every word is the hash of some input.  Each
  exclusive or with a right shift is undone by further shifts, and each multiplier is
  odd and has an inverse modulo \<open>2 ^ 32\<close> (\<open>0xa5cb9243\<close> and \<open>0x7ed1b41d\<close>).
\<close>

theorem MurmurHash3_bij:
  "bij MurmurHash3 \<and> (MurmurHash3 a = MurmurHash3 b \<longleftrightarrow> a = b)"
proof -
  have "inj MurmurHash3" by (simp add: inj_def MurmurHash3_eq_iff)
  then have "bij MurmurHash3" by (simp add: finite_UNIV_inj_surj bij_def)
  then show ?thesis by (simp add: MurmurHash3_eq_iff)
qed

section \<open>ctz32 on the portable branch\<close>

lemma popcnt32_mask_all: "list_all (\<lambda>k. popcnt32 (mask k) = of_nat k) [0..<33]"
  by code_simp

lemma popcnt32_mask: "k \<le> 32 \<Longrightarrow> popcnt32 (mask k) = of_nat k"
  using popcnt32_mask_all by (simp add: list_all_iff)

lemma ctz32_lowest:
  assumes "bit x k" and "\<forall>i<k. \<not> bit x i"
  shows "unat (ctz32 x) = k"
proof -
  have k: "k < 32" using assms(1) by (auto dest: bit_imp_le_length)
  have "ctz32 x = popcnt32 (mask k)"
    using and_minus_lowest [OF assms] by (simp add: ctz32_def mask_eq_exp_minus_1)
  then have "ctz32 x = of_nat k" using k by (simp add: popcnt32_mask)
  then show "unat (ctz32 x) = k" using k by (simp add: unat_of_nat take_bit_nat_eq_self)
qed

text \<open>
  C7.  \<open>ctz32 0 = 32\<close>.  For \<open>x \<noteq> 0\<close> the result is the position of the lowest set
  bit of \<open>x\<close>: that bit is set and every bit below it is zero, so the result counts the
  zero bits below the lowest set bit.  It is computed as \<open>popcnt32 ((x & -x) - 1)\<close>,
  and \<open>ctz32 16 = 4\<close>, \<open>clz32 16 = 27\<close>, \<open>popcnt32 16 = 1\<close>.
\<close>

theorem ctz32_correct:
  "ctz32 0 = 32 \<and>
   (x \<noteq> 0 \<longrightarrow> bit x (unat (ctz32 x)) \<and> (\<forall>i<unat (ctz32 x). \<not> bit x i)) \<and>
   ctz32 x = popcnt32 ((x AND - x) - 1) \<and>
   ctz32 16 = 4 \<and> clz32 16 = 27 \<and> popcnt32 16 = 1"
proof -
  have zero: "ctz32 0 = 32" by code_simp
  have low: "bit x (unat (ctz32 x)) \<and> (\<forall>i<unat (ctz32 x). \<not> bit x i)" if "x \<noteq> 0"
  proof -
    from that obtain j where "bit x j" by (auto simp add: bit_eq_iff)
    define k where "k = (LEAST i. bit x i)"
    have 1: "bit x k" unfolding k_def using \<open>bit x j\<close> by (rule LeastI)
    have 2: "\<forall>i<k. \<not> bit x i" unfolding k_def by (auto dest: not_less_Least)
    show ?thesis using 1 2 ctz32_lowest [OF 1 2] by simp
  qed
  have conc: "ctz32 16 = 4" "clz32 16 = 27" "popcnt32 16 = 1"
    by (simp_all add: ctz32_def clz32_def popcnt32_def Let_def)
  show ?thesis using zero low conc by (simp add: ctz32_def)
qed

theorem ctz32_correct_witness:
  "(40 :: uint32_t) \<noteq> 0 \<and> ctz32 40 = 3 \<and> bit (40 :: uint32_t) 3 \<and>
   \<not> bit (40 :: uint32_t) 2 \<and> \<not> bit (40 :: uint32_t) 1 \<and> \<not> bit (40 :: uint32_t) 0"
  using ctz32_correct [of 40] by (simp add: ctz32_def popcnt32_def Let_def)

end
